theory Spec2Isabelle
  imports Main "HOL-Library.AList"
begin

section \<open>The reference-counting pool manager of \<^verbatim>\<open>memroy_manager.py\<close>\<close>

text \<open>
  The class \<^verbatim>\<open>RefCounter\<close> keeps two dictionaries keyed by \<^verbatim>\<open>id(obj)\<close>, a
  \<^verbatim>\<open>defaultdict(list)\<close> of reclaimed objects keyed by (type name, size category), a
  \<^verbatim>\<open>threading.Lock()\<close> and a running byte count. Every public method runs its body inside
  \<^verbatim>\<open>with self.lock:\<close>.

  The embedding is sequential state passing. The three primitives the code applies to an
  object, \<^verbatim>\<open>id(obj)\<close>, \<^verbatim>\<open>type(obj).__name__\<close> and \<^verbatim>\<open>sys.getsizeof(obj)\<close>, are the
  first three fields of the record \<open>pyobj\<close>: the size and the type of an object are taken to
  be the same at every call. Three log lines format the object itself
  (\<^verbatim>\<open>f"... {obj} ..."\<close>), which raises for some objects (an \<^verbatim>\<open>int\<close> of more than 4300
  digits, an object whose \<^verbatim>\<open>__str__\<close> raises); the field \<open>obj_printable\<close> says whether
  formatting the object succeeds. What \<^verbatim>\<open>_log\<close> prints is kept as a list of events, one
  constructor per message of the source.
\<close>

subsection \<open>Data\<close>

record pyobj =
  obj_id :: nat
  obj_type :: string
  obj_size :: int
  obj_printable :: bool

datatype event =
    LogAllocated nat pyobj int int
  | LogIncreased nat int
  | LogDecreased nat int
  | LogNotAllocated pyobj
  | LogDropping nat int string
  | LogReused nat int string
  | LogNoSuitable
  | LogMemoryUsage int

type_synonym bucket = "(string \<times> string) \<times> pyobj list"

record RefCounter =
  references :: "nat \<rightharpoonup> int"
  objects :: "nat \<rightharpoonup> pyobj"
  memory_pool :: "bucket list"
  lock :: bool
  memory_usage :: int
  printed :: "event list"

text \<open>
  A call either returns, or it does not. \<open>Blocked s\<close> is a call that waits forever for
  the lock, \<open>s\<close> being the state it waits in: \<^verbatim>\<open>threading.Lock\<close> has no owner, so
  acquiring it a second time from the same caller waits for a release that cannot come.
  \<open>KeyError k\<close> is the exception of \<^verbatim>\<open>del d[k]\<close> on a missing key. \<open>FormatError s\<close> is the
  exception raised while the argument of \<^verbatim>\<open>_log\<close> formats an object: nothing is printed,
  the exception leaves \<^verbatim>\<open>with self.lock\<close>, which releases the lock, and reaches the
  caller; \<open>s\<close> is the state it leaves behind.
\<close>

datatype failure = Blocked RefCounter | KeyError nat | FormatError RefCounter

definition RefCounter_init :: RefCounter where
  "RefCounter_init =
     \<lparr>references = Map.empty, objects = Map.empty, memory_pool = [], lock = False,
      memory_usage = 0, printed = []\<rparr>"

subsection \<open>The lock and the log\<close>

definition acquire :: "RefCounter \<Rightarrow> failure + RefCounter" where
  "acquire s = (if lock s then Inl (Blocked s) else Inr (s\<lparr>lock := True\<rparr>))"

definition release :: "RefCounter \<Rightarrow> RefCounter" where
  "release s = s\<lparr>lock := False\<rparr>"

definition log_msg :: "event \<Rightarrow> RefCounter \<Rightarrow> RefCounter" where
  "log_msg e s = s\<lparr>printed := printed s @ [e]\<rparr>"

subsection \<open>Size categories and their comparison\<close>

definition size_category :: "int \<Rightarrow> string" where
  "size_category sz =
     (if sz < 100 then ''small'' else if sz < 1000 then ''medium'' else ''large'')"

text \<open>
  \<^verbatim>\<open>category_size >= size_category\<close> in \<^verbatim>\<open>reuse\<close> compares two Python strings:
  character by character by code point, a proper prefix being the smaller.
\<close>

fun str_ge :: "string \<Rightarrow> string \<Rightarrow> bool" where
  "str_ge _ [] = True"
| "str_ge [] (_ # _) = False"
| "str_ge (a # as) (b # bs) =
     (if a = b then str_ge as bs else (of_char b :: nat) < of_char a)"

subsection \<open>The operations\<close>

definition allocate :: "RefCounter \<Rightarrow> pyobj \<Rightarrow> failure + RefCounter" where
  "allocate s obj =
     (case acquire s of
        Inl e \<Rightarrow> Inl e
      | Inr s1 \<Rightarrow>
          let s2 = s1\<lparr>memory_usage := memory_usage s1 + obj_size obj\<rparr>;
              s3 = s2\<lparr>references := (references s2)(obj_id obj \<mapsto> 1)\<rparr>;
              s4 = s3\<lparr>objects := (objects s3)(obj_id obj \<mapsto> obj)\<rparr>
          in if obj_printable obj
             then Inr (release (log_msg (LogAllocated (obj_id obj) obj 1 (obj_size obj)) s4))
             else Inl (FormatError (release s4)))"

definition increase_ref :: "RefCounter \<Rightarrow> pyobj \<Rightarrow> failure + RefCounter" where
  "increase_ref s obj =
     (case acquire s of
        Inl e \<Rightarrow> Inl e
      | Inr s1 \<Rightarrow>
          (case references s1 (obj_id obj) of
             Some c \<Rightarrow>
               let s2 = s1\<lparr>references := (references s1)(obj_id obj \<mapsto> c + 1)\<rparr>;
                   s3 = log_msg (LogIncreased (obj_id obj) (c + 1)) s2
               in Inr (release s3)
           | None \<Rightarrow>
               if obj_printable obj
               then Inr (release (log_msg (LogNotAllocated obj) s1))
               else Inl (FormatError (release s1))))"

text \<open>\<^verbatim>\<open>self.memory_pool[key].append(obj)\<close> on a \<^verbatim>\<open>defaultdict(list)\<close>: a missing key is
  created with the empty list, at the end of the dictionary's order.\<close>

definition pool_append :: "string \<times> string \<Rightarrow> pyobj \<Rightarrow> bucket list \<Rightarrow> bucket list" where
  "pool_append key obj pool =
     AList.update key ((case map_of pool key of None \<Rightarrow> [] | Some xs \<Rightarrow> xs) @ [obj]) pool"

definition drop_obj :: "RefCounter \<Rightarrow> pyobj \<Rightarrow> failure + RefCounter" where
  "drop_obj s obj =
     (case acquire s of
        Inl e \<Rightarrow> Inl e
      | Inr s1 \<Rightarrow>
          if references s1 (obj_id obj) \<noteq> None then
            let s2 = log_msg (LogDropping (obj_id obj) (obj_size obj) (obj_type obj)) s1;
                s3 = s2\<lparr>memory_usage := memory_usage s2 - obj_size obj\<rparr>;
                s4 = s3\<lparr>references := (references s3)(obj_id obj := None)\<rparr>
            in if objects s4 (obj_id obj) = None then Inl (KeyError (obj_id obj))
               else
                 let s5 = s4\<lparr>objects := (objects s4)(obj_id obj := None)\<rparr>;
                     size_cat = (obj_type obj, size_category (obj_size obj));
                     s6 = s5\<lparr>memory_pool := pool_append size_cat obj (memory_pool s5)\<rparr>
                 in Inr (release s6)
          else Inr (release s1))"

definition decrease_ref :: "RefCounter \<Rightarrow> pyobj \<Rightarrow> failure + RefCounter" where
  "decrease_ref s obj =
     (case acquire s of
        Inl e \<Rightarrow> Inl e
      | Inr s1 \<Rightarrow>
          (case references s1 (obj_id obj) of
             Some c \<Rightarrow>
               let s2 = s1\<lparr>references := (references s1)(obj_id obj \<mapsto> c - 1)\<rparr>;
                   s3 = log_msg (LogDecreased (obj_id obj) (c - 1)) s2
               in if c - 1 = 0 then
                    (case drop_obj s3 obj of Inl e \<Rightarrow> Inl e | Inr s4 \<Rightarrow> Inr (release s4))
                  else Inr (release s3)
           | None \<Rightarrow>
               if obj_printable obj
               then Inr (release (log_msg (LogNotAllocated obj) s1))
               else Inl (FormatError (release s1))))"

text \<open>The \<^verbatim>\<open>for\<close> loop of \<^verbatim>\<open>reuse\<close> over \<^verbatim>\<open>self.memory_pool.items()\<close>, in insertion
  order; \<open>desired_type\<close> is the \<^verbatim>\<open>__name__\<close> of the requested type, or \<open>None\<close>.\<close>

fun reuse_loop ::
  "RefCounter \<Rightarrow> string option \<Rightarrow> string \<Rightarrow> bucket list \<Rightarrow> failure + (pyobj option \<times> RefCounter)"
where
  "reuse_loop s desired_type size_cat [] = Inr (None, log_msg LogNoSuitable s)"
| "reuse_loop s desired_type size_cat (((tname, category_size), pool) # rest) =
     (if (desired_type = None \<or> Some tname = desired_type) \<and> str_ge category_size size_cat
         \<and> pool \<noteq> []
      then
        let reused_obj = last pool;
            s1 = s\<lparr>memory_pool :=
                    AList.update (tname, category_size) (butlast pool) (memory_pool s)\<rparr>
        in (case allocate s1 reused_obj of
              Inl e \<Rightarrow> Inl e
            | Inr s2 \<Rightarrow>
                Inr (Some reused_obj,
                     log_msg (LogReused (obj_id reused_obj) (obj_size reused_obj) tname) s2))
      else reuse_loop s desired_type size_cat rest)"

definition reuse ::
  "RefCounter \<Rightarrow> string option \<Rightarrow> int \<Rightarrow> failure + (pyobj option \<times> RefCounter)"
where
  "reuse s desired_type min_size =
     (case acquire s of
        Inl e \<Rightarrow> Inl e
      | Inr s1 \<Rightarrow>
          (case reuse_loop s1 desired_type (size_category min_size) (memory_pool s1) of
             Inl e \<Rightarrow> Inl e
           | Inr (r, s2) \<Rightarrow> Inr (r, release s2)))"

definition get_memory_usage :: "RefCounter \<Rightarrow> failure + (int \<times> RefCounter)" where
  "get_memory_usage s =
     (case acquire s of
        Inl e \<Rightarrow> Inl e
      | Inr s1 \<Rightarrow> Inr (memory_usage s1, release (log_msg (LogMemoryUsage (memory_usage s1)) s1)))"

subsection \<open>Sequences of calls\<close>

datatype op =
    Allocate pyobj
  | IncreaseRef pyobj
  | DecreaseRef pyobj
  | Drop pyobj
  | Reuse "string option" int
  | GetMemoryUsage

fun exec :: "op \<Rightarrow> RefCounter \<Rightarrow> failure + RefCounter" where
  "exec (Allocate obj) s = allocate s obj"
| "exec (IncreaseRef obj) s = increase_ref s obj"
| "exec (DecreaseRef obj) s = decrease_ref s obj"
| "exec (Drop obj) s = drop_obj s obj"
| "exec (Reuse desired_type min_size) s =
     (case reuse s desired_type min_size of Inl e \<Rightarrow> Inl e | Inr (r, s') \<Rightarrow> Inr s')"
| "exec GetMemoryUsage s =
     (case get_memory_usage s of Inl e \<Rightarrow> Inl e | Inr (r, s') \<Rightarrow> Inr s')"

text \<open>
  The state from which the caller goes on after a call: the one the call returned, or the
  one its exception left behind (the caller catching it). A call that waits for the lock
  is never followed by another; nor is, in this model, one that raises \<open>KeyError\<close>.
\<close>

definition resume :: "failure + RefCounter \<Rightarrow> RefCounter option" where
  "resume r =
     (case r of
        Inr s \<Rightarrow> Some s
      | Inl (FormatError s) \<Rightarrow> Some s
      | Inl (Blocked s) \<Rightarrow> None
      | Inl (KeyError k) \<Rightarrow> None)"

fun run :: "op list \<Rightarrow> RefCounter \<Rightarrow> failure + RefCounter" where
  "run [] s = Inr s"
| "run (c # cs) s = (case resume (exec c s) of None \<Rightarrow> exec c s | Some s' \<Rightarrow> run cs s')"

subsection \<open>Notions used by the statements\<close>

text \<open>Two dictionaries of the kind the usage example allocates, a small and a medium one,
  and an \<^verbatim>\<open>int\<close> too long to be formatted.\<close>

definition small_dict :: pyobj where
  "small_dict = \<lparr>obj_id = 1, obj_type = ''dict'', obj_size = 64, obj_printable = True\<rparr>"

definition medium_dict :: pyobj where
  "medium_dict = \<lparr>obj_id = 2, obj_type = ''dict'', obj_size = 500, obj_printable = True\<rparr>"


definition blocks :: "failure + 'a \<Rightarrow> bool" where
  "blocks r = (case r of Inl (Blocked s) \<Rightarrow> True | _ \<Rightarrow> False)"

text \<open>The sum of the sizes of the objects in the live-object table.\<close>

definition live_bytes :: "RefCounter \<Rightarrow> int" where
  "live_bytes s = (\<Sum>k\<in>dom (objects s). obj_size (the (objects s k)))"

definition tables_agree :: "RefCounter \<Rightarrow> bool" where
  "tables_agree s = (dom (references s) = dom (objects s))"

definition counts_positive :: "RefCounter \<Rightarrow> bool" where
  "counts_positive s = (\<forall>k c. references s k = Some c \<longrightarrow> 1 \<le> c)"

text \<open>A state between two calls: the lock is free, the two live tables have the same keys
  and no count is below one.\<close>

definition quiescent :: "RefCounter \<Rightarrow> bool" where
  "quiescent s = (\<not> lock s \<and> tables_agree s \<and> counts_positive s)"

definition settled :: "failure + RefCounter \<Rightarrow> bool" where
  "settled r =
     (case r of
        Inr s \<Rightarrow> quiescent s
      | Inl (Blocked s) \<Rightarrow> tables_agree s
      | Inl (KeyError k) \<Rightarrow> False
      | Inl (FormatError s) \<Rightarrow> quiescent s)"

text \<open>The objects a call is made on.\<close>

fun mentioned :: "op \<Rightarrow> pyobj list" where
  "mentioned (Allocate obj) = [obj]"
| "mentioned (IncreaseRef obj) = [obj]"
| "mentioned (DecreaseRef obj) = [obj]"
| "mentioned (Drop obj) = [obj]"
| "mentioned (Reuse desired_type min_size) = []"
| "mentioned GetMemoryUsage = []"

text \<open>A call of \<open>allocate\<close> on an object whose identity is in the reference table.\<close>

definition allocates_live :: "op \<Rightarrow> RefCounter \<Rightarrow> bool" where
  "allocates_live c s = (case c of Allocate obj \<Rightarrow> references s (obj_id obj) \<noteq> None | _ \<Rightarrow> False)"

text \<open>No call of the sequence, run from \<open>s\<close>, is such a call.\<close>

fun fresh_allocations :: "op list \<Rightarrow> RefCounter \<Rightarrow> bool" where
  "fresh_allocations [] s = True"
| "fresh_allocations (c # cs) s =
     (\<not> allocates_live c s
      \<and> (case resume (exec c s) of None \<Rightarrow> True | Some s' \<Rightarrow> fresh_allocations cs s'))"

text \<open>
  The accounting of a state between two calls, over a set \<open>U\<close> of objects: every live
  object is stored under its own identity and belongs to \<open>U\<close>, and \<open>memory_usage\<close> is the
  sum of the sizes of the live objects.
\<close>

definition accounted :: "pyobj set \<Rightarrow> RefCounter \<Rightarrow> bool" where
  "accounted U s =
     (\<not> lock s \<and> tables_agree s \<and> finite (dom (objects s))
      \<and> (\<forall>k y. objects s k = Some y \<longrightarrow> obj_id y = k \<and> y \<in> U)
      \<and> memory_usage s = live_bytes s)"

text \<open>A sequence of calls that all return.\<close>

definition demo_calls :: "op list" where
  "demo_calls =
     [Allocate small_dict, IncreaseRef small_dict, Allocate medium_dict, Drop medium_dict,
      DecreaseRef small_dict, Reuse (Some ''dict'') 50, GetMemoryUsage]"

section \<open>Properties\<close>

lemmas op_defs = allocate_def increase_ref_def decrease_ref_def drop_obj_def reuse_def
  get_memory_usage_def acquire_def release_def log_msg_def pool_append_def

subsection \<open>The comparison of size categories\<close>

text \<open>
  On the three category names the string comparison of \<open>reuse\<close> is the alphabetical one,
  \<open>large < medium < small\<close>: a bucket of small objects qualifies for every \<open>min_size\<close>, a
  bucket of large objects only for a \<open>min_size\<close> of at least 1000.
\<close>

lemma str_ge_size_category:
  "str_ge (size_category a) (size_category b) = (a < 100 \<or> (a < 1000 \<and> 100 \<le> b) \<or> 1000 \<le> b)"
  by (simp add: size_category_def)

text \<open>
  Claim C1. \<open>reuse\<close> is to take an object from the buckets of the desired type whose category
  is at least the category of \<open>min_size\<close> in the order small < medium < large; after a
  medium-sized dict has been dropped, \<open>reuse(dict, 50)\<close> is to return it. The code compares
  the category names as strings: with a dropped dict of 500 bytes in the bucket
  (dict, medium), \<open>reuse(dict, 50)\<close> skips that bucket, prints that nothing is suitable and
  returns \<open>None\<close>, leaving the pool and the live tables as they were. A bucket of large
  objects does not qualify for \<open>min_size = 50\<close> either, and a bucket of small objects
  qualifies for \<open>min_size = 5000\<close>.
\<close>

theorem reuse_skips_medium_bucket_for_small_request:
  "(case run [Allocate medium_dict, Drop medium_dict] RefCounter_init of
      Inl e \<Rightarrow> False
    | Inr s \<Rightarrow>
        memory_pool s = [((''dict'', ''medium''), [medium_dict])]
        \<and> reuse s (Some ''dict'') 50 = Inr (None, s\<lparr>printed := printed s @ [LogNoSuitable]\<rparr>))
   \<and> \<not> str_ge ''medium'' (size_category 50)
   \<and> \<not> str_ge ''large'' (size_category 50)
   \<and> str_ge ''small'' (size_category 5000)"
  by (simp add: medium_dict_def RefCounter_init_def op_defs resume_def size_category_def)

subsection \<open>What each call leaves behind\<close>

text \<open>
  The state from which the caller goes on after a call made with the lock free. Whether a
  line was printed or the formatting of the object raised only shows in \<open>printed\<close>.
\<close>

lemma allocate_resumes:
  assumes "\<not> lock s"
  shows "\<exists>p. resume (allocate s x) =
     Some (s\<lparr>memory_usage := memory_usage s + obj_size x,
              references := (references s)(obj_id x \<mapsto> 1),
              objects := (objects s)(obj_id x \<mapsto> x), printed := p\<rparr>)"
proof (cases "obj_printable x")
  case True
  with assms have "resume (allocate s x) =
     Some (s\<lparr>memory_usage := memory_usage s + obj_size x,
              references := (references s)(obj_id x \<mapsto> 1),
              objects := (objects s)(obj_id x \<mapsto> x),
              printed := printed s @ [LogAllocated (obj_id x) x 1 (obj_size x)]\<rparr>)"
    by (simp add: op_defs resume_def)
  then show ?thesis ..
next
  case False
  with assms have "resume (allocate s x) =
     Some (s\<lparr>memory_usage := memory_usage s + obj_size x,
              references := (references s)(obj_id x \<mapsto> 1),
              objects := (objects s)(obj_id x \<mapsto> x), printed := printed s\<rparr>)"
    by (simp add: op_defs resume_def)
  then show ?thesis ..
qed

lemma increase_ref_resumes:
  assumes "\<not> lock s"
  shows "\<exists>p. resume (increase_ref s x) =
     Some (case references s (obj_id x) of
             None \<Rightarrow> s\<lparr>printed := p\<rparr>
           | Some c \<Rightarrow> s\<lparr>references := (references s)(obj_id x \<mapsto> c + 1), printed := p\<rparr>)"
proof (cases "references s (obj_id x)")
  case None
  show ?thesis
  proof (cases "obj_printable x")
    case True
    with assms None have "resume (increase_ref s x) =
        Some (s\<lparr>printed := printed s @ [LogNotAllocated x]\<rparr>)"
      by (simp add: op_defs resume_def)
    with None show ?thesis by auto
  next
    case False
    with assms None have "resume (increase_ref s x) = Some s"
      by (simp add: op_defs resume_def)
    with None show ?thesis by (intro exI [of _ "printed s"]) simp
  qed
next
  case (Some c)
  with assms have "resume (increase_ref s x) =
      Some (s\<lparr>references := (references s)(obj_id x \<mapsto> c + 1),
               printed := printed s @ [LogIncreased (obj_id x) (c + 1)]\<rparr>)"
    by (simp add: op_defs resume_def)
  with Some show ?thesis by auto
qed

lemma decrease_ref_resumes:
  assumes "\<not> lock s" and "references s (obj_id x) \<noteq> Some 1"
  shows "\<exists>p. resume (decrease_ref s x) =
     Some (case references s (obj_id x) of
             None \<Rightarrow> s\<lparr>printed := p\<rparr>
           | Some c \<Rightarrow> s\<lparr>references := (references s)(obj_id x \<mapsto> c - 1), printed := p\<rparr>)"
proof (cases "references s (obj_id x)")
  case None
  show ?thesis
  proof (cases "obj_printable x")
    case True
    with assms None have "resume (decrease_ref s x) =
        Some (s\<lparr>printed := printed s @ [LogNotAllocated x]\<rparr>)"
      by (simp add: op_defs resume_def)
    with None show ?thesis by auto
  next
    case False
    with assms None have "resume (decrease_ref s x) = Some s"
      by (simp add: op_defs resume_def)
    with None show ?thesis by (intro exI [of _ "printed s"]) simp
  qed
next
  case (Some c)
  with assms have "c \<noteq> 1" by simp
  with assms Some have "resume (decrease_ref s x) =
      Some (s\<lparr>references := (references s)(obj_id x \<mapsto> c - 1),
               printed := printed s @ [LogDecreased (obj_id x) (c - 1)]\<rparr>)"
    by (simp add: op_defs resume_def Let_def)
  with Some show ?thesis by auto
qed

lemma decrease_ref_blocks:
  assumes "\<not> lock s" and "references s (obj_id x) = Some 1"
  shows "decrease_ref s x =
     Inl (Blocked (s\<lparr>lock := True, references := (references s)(obj_id x \<mapsto> 0),
                     printed := printed s @ [LogDecreased (obj_id x) 0]\<rparr>))"
  using assms by (simp add: op_defs)

lemma drop_obj_returns:
  assumes "\<not> lock s" and "references s (obj_id x) = Some c" and "objects s (obj_id x) = Some y"
  shows "drop_obj s x =
     Inr (s\<lparr>printed := printed s @ [LogDropping (obj_id x) (obj_size x) (obj_type x)],
           memory_usage := memory_usage s - obj_size x,
           references := (references s)(obj_id x := None),
           objects := (objects s)(obj_id x := None),
           memory_pool := pool_append (obj_type x, size_category (obj_size x)) x (memory_pool s)\<rparr>)"
  using assms by (simp add: drop_obj_def acquire_def release_def log_msg_def Let_def)

lemma drop_obj_absent:
  assumes "\<not> lock s" and "references s (obj_id x) = None"
  shows "drop_obj s x = Inr s"
  using assms by (simp add: op_defs)

lemma get_memory_usage_returns:
  assumes "\<not> lock s"
  shows "get_memory_usage s =
     Inr (memory_usage s, s\<lparr>printed := printed s @ [LogMemoryUsage (memory_usage s)]\<rparr>)"
  using assms by (simp add: op_defs)

lemma reuse_loop_locked:
  assumes "lock s"
  shows "(\<exists>s'. reuse_loop s d c bs = Inl (Blocked s') \<and> references s' = references s
            \<and> objects s' = objects s)
         \<or> reuse_loop s d c bs = Inr (None, log_msg LogNoSuitable s)"
  using assms
proof (induction bs)
  case Nil
  then show ?case by simp
next
  case (Cons b bs)
  obtain t cs p where b: "b = ((t, cs), p)" by (metis surj_pair)
  show ?case
  proof (cases "(d = None \<or> Some t = d) \<and> str_ge cs c \<and> p \<noteq> []")
    case True
    then show ?thesis using Cons.prems by (simp add: b allocate_def acquire_def Let_def)
  next
    case False
    then have "reuse_loop s d c (b # bs) = reuse_loop s d c bs" by (auto simp add: b)
    then show ?thesis using Cons by simp
  qed
qed

lemma reuse_outcome:
  assumes "\<not> lock s"
  shows "(\<exists>s'. reuse s d m = Inl (Blocked s') \<and> references s' = references s
            \<and> objects s' = objects s)
         \<or> reuse s d m = Inr (None, s\<lparr>printed := printed s @ [LogNoSuitable]\<rparr>)"
proof -
  let ?s1 = "s\<lparr>lock := True\<rparr>"
  have "lock ?s1" by simp
  from reuse_loop_locked [OF this, of d "size_category m" "memory_pool ?s1"]
  show ?thesis
  proof
    assume "\<exists>s'. reuse_loop ?s1 d (size_category m) (memory_pool ?s1) = Inl (Blocked s')
        \<and> references s' = references ?s1 \<and> objects s' = objects ?s1"
    then show ?thesis using assms by (auto simp add: reuse_def acquire_def)
  next
    assume "reuse_loop ?s1 d (size_category m) (memory_pool ?s1)
        = Inr (None, log_msg LogNoSuitable ?s1)"
    then show ?thesis using assms
      by (simp add: reuse_def acquire_def release_def log_msg_def)
  qed
qed

subsection \<open>States between calls\<close>

text \<open>
  From a state between two calls every call either leaves such a state behind, or waits
  forever in a state whose live tables still have the same keys; \<open>del\<close> never raises.
\<close>

lemma tables_agree_None:
  "tables_agree s \<Longrightarrow> (objects s k = None) = (references s k = None)"
  unfolding tables_agree_def by (metis domIff)

lemma counts_positiveD: "counts_positive s \<Longrightarrow> references s k = Some c \<Longrightarrow> 1 \<le> c"
  by (simp add: counts_positive_def)

lemma quiescent_printed: "quiescent s \<Longrightarrow> quiescent (s\<lparr>printed := p\<rparr>)"
  by (simp add: quiescent_def tables_agree_def counts_positive_def)

lemma quiescent_count:
  assumes "quiescent s" and "references s k = Some c" and "1 \<le> c'"
  shows "quiescent (s\<lparr>references := (references s)(k \<mapsto> c')\<rparr>)"
proof -
  from assms(2) have "insert k (dom (references s)) = dom (references s)" by auto
  then show ?thesis using assms(1,3)
    by (simp add: quiescent_def tables_agree_def counts_positive_def)
qed

lemma allocate_quiescent:
  assumes "quiescent s"
  shows "\<exists>s'. resume (allocate s x) = Some s' \<and> quiescent s'"
proof -
  from assms have nl: "\<not> lock s" by (simp add: quiescent_def)
  from allocate_resumes [OF nl, of x] obtain p where
    r: "resume (allocate s x) =
     Some (s\<lparr>memory_usage := memory_usage s + obj_size x,
              references := (references s)(obj_id x \<mapsto> 1),
              objects := (objects s)(obj_id x \<mapsto> x), printed := p\<rparr>)" ..
  have "quiescent (s\<lparr>memory_usage := memory_usage s + obj_size x,
              references := (references s)(obj_id x \<mapsto> 1),
              objects := (objects s)(obj_id x \<mapsto> x), printed := p\<rparr>)"
    using assms by (simp add: quiescent_def tables_agree_def counts_positive_def)
  with r show ?thesis by blast
qed

lemma increase_ref_quiescent:
  assumes "quiescent s"
  shows "\<exists>s'. resume (increase_ref s x) = Some s' \<and> quiescent s'"
proof -
  from assms have nl: "\<not> lock s" and cp: "counts_positive s" by (simp_all add: quiescent_def)
  from increase_ref_resumes [OF nl, of x] obtain p where
    r: "resume (increase_ref s x) =
     Some (case references s (obj_id x) of
             None \<Rightarrow> s\<lparr>printed := p\<rparr>
           | Some c \<Rightarrow> s\<lparr>references := (references s)(obj_id x \<mapsto> c + 1), printed := p\<rparr>)" ..
  show ?thesis
  proof (cases "references s (obj_id x)")
    case None
    with r quiescent_printed [OF assms, of p] show ?thesis by simp
  next
    case (Some c)
    from counts_positiveD [OF cp Some] have "1 \<le> c + 1" by simp
    from quiescent_printed [OF quiescent_count [OF assms Some this], of p] r Some
    show ?thesis by simp
  qed
qed

lemma decrease_ref_quiescent:
  assumes "quiescent s"
  shows "(\<exists>s'. resume (decrease_ref s x) = Some s' \<and> quiescent s')
       \<or> (\<exists>s'. decrease_ref s x = Inl (Blocked s') \<and> tables_agree s')"
proof -
  from assms have ag: "tables_agree s" and nl: "\<not> lock s" and cp: "counts_positive s"
    by (simp_all add: quiescent_def)
  show ?thesis
  proof (cases "references s (obj_id x) = Some 1")
    case True
    then have "insert (obj_id x) (dom (references s)) = dom (references s)" by auto
    then have "tables_agree (s\<lparr>lock := True, references := (references s)(obj_id x \<mapsto> 0),
                     printed := printed s @ [LogDecreased (obj_id x) 0]\<rparr>)"
      using ag by (simp add: tables_agree_def)
    with decrease_ref_blocks [OF nl True] show ?thesis by blast
  next
    case False
    from decrease_ref_resumes [OF nl False] obtain p where
      r: "resume (decrease_ref s x) =
       Some (case references s (obj_id x) of
               None \<Rightarrow> s\<lparr>printed := p\<rparr>
             | Some c \<Rightarrow> s\<lparr>references := (references s)(obj_id x \<mapsto> c - 1), printed := p\<rparr>)" ..
    show ?thesis
    proof (cases "references s (obj_id x)")
      case None
      with r quiescent_printed [OF assms, of p] show ?thesis by simp
    next
      case (Some c)
      from counts_positiveD [OF cp Some] False Some have "1 \<le> c - 1" by simp
      from quiescent_printed [OF quiescent_count [OF assms Some this], of p] r Some
      show ?thesis by simp
    qed
  qed
qed

lemma drop_obj_quiescent:
  assumes "quiescent s"
  shows "\<exists>s'. drop_obj s x = Inr s' \<and> quiescent s'"
proof -
  from assms have ag: "tables_agree s" and nl: "\<not> lock s" and cp: "counts_positive s"
    by (simp_all add: quiescent_def)
  show ?thesis
  proof (cases "references s (obj_id x)")
    case None
    from drop_obj_absent [OF nl None] assms show ?thesis by simp
  next
    case (Some c)
    then obtain y where y: "objects s (obj_id x) = Some y"
      using tables_agree_None [OF ag, of "obj_id x"] by auto
    let ?s' = "s\<lparr>printed := printed s @ [LogDropping (obj_id x) (obj_size x) (obj_type x)],
           memory_usage := memory_usage s - obj_size x,
           references := (references s)(obj_id x := None),
           objects := (objects s)(obj_id x := None),
           memory_pool := pool_append (obj_type x, size_category (obj_size x)) x (memory_pool s)\<rparr>"
    have 1: "\<not> lock ?s'" using nl by simp
    have 2: "tables_agree ?s'" using ag by (simp add: tables_agree_def)
    have 3: "counts_positive ?s'" using cp by (simp add: counts_positive_def)
    from 1 2 3 have "quiescent ?s'" unfolding quiescent_def by blast
    with drop_obj_returns [OF nl Some y] show ?thesis by blast
  qed
qed

lemma reuse_quiescent:
  assumes "quiescent s"
  shows "(\<exists>s'. reuse s d m = Inr (None, s') \<and> quiescent s')
       \<or> (\<exists>s'. reuse s d m = Inl (Blocked s') \<and> tables_agree s')"
proof -
  from assms have ag: "tables_agree s" and nl: "\<not> lock s" by (simp_all add: quiescent_def)
  from reuse_outcome [OF nl, of d m] show ?thesis
  proof
    assume "\<exists>s'. reuse s d m = Inl (Blocked s') \<and> references s' = references s
        \<and> objects s' = objects s"
    then show ?thesis using ag by (auto simp add: tables_agree_def)
  next
    assume "reuse s d m = Inr (None, s\<lparr>printed := printed s @ [LogNoSuitable]\<rparr>)"
    with quiescent_printed [OF assms] show ?thesis by blast
  qed
qed

lemma get_memory_usage_quiescent:
  assumes "quiescent s"
  shows "\<exists>s'. get_memory_usage s = Inr (memory_usage s, s') \<and> quiescent s'"
proof -
  from assms have nl: "\<not> lock s" by (simp add: quiescent_def)
  from get_memory_usage_returns [OF nl] quiescent_printed [OF assms] show ?thesis by blast
qed

lemma settled_resume: "resume r = Some s' \<Longrightarrow> quiescent s' \<Longrightarrow> settled r"
  by (auto simp add: resume_def settled_def split: sum.splits failure.splits)

lemma exec_settled:
  assumes "quiescent s"
  shows "settled (exec c s)"
proof (cases c)
  case (Allocate x)
  from allocate_quiescent [OF assms, of x] show ?thesis
    by (auto simp add: Allocate intro: settled_resume)
next
  case (IncreaseRef x)
  from increase_ref_quiescent [OF assms, of x] show ?thesis
    by (auto simp add: IncreaseRef intro: settled_resume)
next
  case (DecreaseRef x)
  from decrease_ref_quiescent [OF assms, of x] show ?thesis
  proof
    assume "\<exists>s'. resume (decrease_ref s x) = Some s' \<and> quiescent s'"
    then show ?thesis by (auto simp add: DecreaseRef intro: settled_resume)
  next
    assume "\<exists>s'. decrease_ref s x = Inl (Blocked s') \<and> tables_agree s'"
    then show ?thesis by (auto simp add: DecreaseRef settled_def)
  qed
next
  case (Drop x)
  from drop_obj_quiescent [OF assms, of x] show ?thesis by (auto simp add: Drop settled_def)
next
  case (Reuse d m)
  from reuse_quiescent [OF assms, of d m] show ?thesis by (auto simp add: Reuse settled_def)
next
  case GetMemoryUsage
  from get_memory_usage_quiescent [OF assms] show ?thesis
    by (auto simp add: GetMemoryUsage settled_def)
qed

lemma resume_settled: "settled r \<Longrightarrow> resume r = Some s' \<Longrightarrow> quiescent s'"
  by (auto simp add: resume_def settled_def split: sum.splits failure.splits)

lemma run_settled: "quiescent s \<Longrightarrow> settled (run cs s)"
proof (induction cs arbitrary: s)
  case Nil
  then show ?case by (simp add: settled_def)
next
  case (Cons c cs)
  note e = exec_settled [OF Cons.prems, of c]
  show ?case
  proof (cases "resume (exec c s)")
    case None
    with e show ?thesis by simp
  next
    case (Some s1)
    from resume_settled [OF e Some] have "quiescent s1" .
    from Cons.IH [OF this] Some show ?thesis by simp
  qed
qed

lemma quiescent_init: "quiescent RefCounter_init"
  by (simp add: quiescent_def tables_agree_def counts_positive_def RefCounter_init_def)

text \<open>
  Claim C9. In every state reached from the initial one by public calls, each of which
  returned or raised, the reference table and the live-object table have the same keys;
  and a further call that returns or raises adds or removes a key in one table exactly
  when it does so in the other.
\<close>

theorem live_tables_have_the_same_keys:
  assumes "run cs RefCounter_init = Inr s"
  shows "dom (references s) = dom (objects s)
       \<and> (\<forall>c s'. resume (exec c s) = Some s' \<longrightarrow>
             dom (references s') = dom (objects s')
             \<and> (dom (references s') = dom (references s)) = (dom (objects s') = dom (objects s)))"
proof -
  from run_settled [OF quiescent_init, of cs] assms have q: "quiescent s"
    by (simp add: settled_def)
  then have a: "dom (references s) = dom (objects s)"
    by (simp add: quiescent_def tables_agree_def)
  have "dom (references s') = dom (objects s')" if "resume (exec c s) = Some s'" for c s'
    using resume_settled [OF exec_settled [OF q, of c] that]
    by (simp add: quiescent_def tables_agree_def)
  with a show ?thesis by simp
qed

text \<open>The theorem at a run of seven calls, followed by a \<open>drop\<close> that removes the last live
  object from both tables.\<close>

theorem live_tables_have_the_same_keys_witness:
  "\<exists>s s'. run demo_calls RefCounter_init = Inr s
     \<and> dom (references s) = dom (objects s)
     \<and> exec (Drop small_dict) s = Inr s'
     \<and> dom (references s') = dom (objects s')
     \<and> dom (references s') \<noteq> dom (references s) \<and> dom (objects s') \<noteq> dom (objects s)"
proof -
  obtain s where r: "run demo_calls RefCounter_init = Inr s"
    by (simp add: demo_calls_def small_dict_def medium_dict_def RefCounter_init_def op_defs
        resume_def size_category_def)
  have d: "dom (references s) = {1}"
    using r by (auto simp add: demo_calls_def small_dict_def medium_dict_def RefCounter_init_def
        op_defs resume_def size_category_def split: if_splits)
  obtain s' where e: "exec (Drop small_dict) s = Inr s'" and d': "dom (references s') = {}"
    using r by (auto simp add: demo_calls_def small_dict_def medium_dict_def RefCounter_init_def
        op_defs resume_def size_category_def)
  from e have e': "resume (exec (Drop small_dict) s) = Some s'" by (simp add: resume_def)
  from live_tables_have_the_same_keys [OF r]
  have k: "dom (references s) = dom (objects s)"
    and k': "dom (references s') = dom (objects s')
       \<and> (dom (references s') = dom (references s)) = (dom (objects s') = dom (objects s))"
    using e' by blast+
  from d d' have "dom (references s') \<noteq> dom (references s)" by simp
  with k k' r e show ?thesis by blast
qed

subsection \<open>Accounting\<close>

lemma sum_map_upd:
  fixes f :: "'v \<Rightarrow> int"
  assumes "finite (dom m)" and "m k = None"
  shows "(\<Sum>j\<in>dom (m(k \<mapsto> x)). f (the ((m(k \<mapsto> x)) j))) = (\<Sum>j\<in>dom m. f (the (m j))) + f x"
proof -
  let ?g = "\<lambda>j. f (the ((m(k \<mapsto> x)) j))"
  from assms(2) have nk: "k \<notin> dom m" by (simp add: domIff)
  have a: "sum ?g (insert k (dom m)) = ?g k + sum ?g (dom m)"
    using assms(1) nk by (rule sum.insert)
  have b: "sum ?g (dom m) = (\<Sum>j\<in>dom m. f (the (m j)))"
    using nk by (intro sum.cong) auto
  have c: "?g k = f x" by simp
  have d: "dom (m(k \<mapsto> x)) = insert k (dom m)" by simp
  have "sum ?g (dom (m(k \<mapsto> x))) = f x + (\<Sum>j\<in>dom m. f (the (m j)))"
    unfolding d a b c ..
  then show ?thesis by linarith
qed

lemma sum_map_del:
  fixes f :: "'v \<Rightarrow> int"
  assumes "finite (dom m)" and "m k = Some x"
  shows "(\<Sum>j\<in>dom (m(k := None)). f (the ((m(k := None)) j))) = (\<Sum>j\<in>dom m. f (the (m j))) - f x"
proof -
  let ?m' = "m(k := None)"
  have fin: "finite (dom ?m')" using assms(1) by simp
  have e: "?m'(k \<mapsto> x) = m" using assms(2) by (simp add: fun_upd_idem)
  have "(\<Sum>j\<in>dom (?m'(k \<mapsto> x)). f (the ((?m'(k \<mapsto> x)) j))) = (\<Sum>j\<in>dom ?m'. f (the (?m' j))) + f x"
    using fin by (rule sum_map_upd) simp
  then have "(\<Sum>j\<in>dom m. f (the (m j))) = (\<Sum>j\<in>dom ?m'. f (the (?m' j))) + f x"
    unfolding e .
  then show ?thesis by linarith
qed

lemma accounted_printed:
  "accounted U s \<Longrightarrow> accounted U (s\<lparr>printed := p\<rparr>)"
  by (simp add: accounted_def tables_agree_def live_bytes_def)

lemma accounted_count:
  assumes "accounted U s" and "references s k = Some c"
  shows "accounted U (s\<lparr>references := (references s)(k \<mapsto> c')\<rparr>)"
proof -
  from assms(2) have "insert k (dom (references s)) = dom (references s)" by auto
  then show ?thesis using assms(1) by (simp add: accounted_def tables_agree_def live_bytes_def)
qed

lemma accounted_allocate:
  assumes "accounted U s" and "x \<in> U" and "references s (obj_id x) = None"
  shows "\<exists>s'. resume (allocate s x) = Some s' \<and> accounted U s'"
proof -
  from assms(1) have nl: "\<not> lock s" and ag: "tables_agree s" and fin: "finite (dom (objects s))"
    and ids: "\<forall>k y. objects s k = Some y \<longrightarrow> obj_id y = k \<and> y \<in> U"
    and mu: "memory_usage s = live_bytes s"
    by (simp_all add: accounted_def)
  from assms(3) have on: "objects s (obj_id x) = None" using tables_agree_None [OF ag] by simp
  from allocate_resumes [OF nl, of x] obtain p where
    r: "resume (allocate s x) =
     Some (s\<lparr>memory_usage := memory_usage s + obj_size x,
              references := (references s)(obj_id x \<mapsto> 1),
              objects := (objects s)(obj_id x \<mapsto> x), printed := p\<rparr>)" ..
  let ?s' = "s\<lparr>memory_usage := memory_usage s + obj_size x,
              references := (references s)(obj_id x \<mapsto> 1),
              objects := (objects s)(obj_id x \<mapsto> x), printed := p\<rparr>"
  have "live_bytes ?s' = live_bytes s + obj_size x"
    unfolding live_bytes_def using sum_map_upd [OF fin on, of obj_size x] by simp
  with mu have 1: "memory_usage ?s' = live_bytes ?s'" by simp
  have 2: "tables_agree ?s'" using ag by (simp add: tables_agree_def)
  have 3: "finite (dom (objects ?s'))" using fin by simp
  have 4: "\<forall>k y. objects ?s' k = Some y \<longrightarrow> obj_id y = k \<and> y \<in> U"
  proof (intro allI impI)
    fix k z assume z: "objects ?s' k = Some z"
    show "obj_id z = k \<and> z \<in> U"
    proof (cases "k = obj_id x")
      case True
      with z assms(2) show ?thesis by simp
    next
      case False
      with z have "objects s k = Some z" by simp
      with ids show ?thesis by blast
    qed
  qed
  have 5: "\<not> lock ?s'" using nl by simp
  from 1 2 3 4 5 have "accounted U ?s'" unfolding accounted_def by blast
  with r show ?thesis by blast
qed

lemma accounted_drop:
  assumes "accounted U s" and "x \<in> U" and "inj_on obj_id U"
  shows "\<exists>s'. drop_obj s x = Inr s' \<and> accounted U s'"
proof -
  from assms(1) have nl: "\<not> lock s" and ag: "tables_agree s" and fin: "finite (dom (objects s))"
    and ids: "\<forall>k y. objects s k = Some y \<longrightarrow> obj_id y = k \<and> y \<in> U"
    and mu: "memory_usage s = live_bytes s"
    by (simp_all add: accounted_def)
  show ?thesis
  proof (cases "references s (obj_id x)")
    case None
    then have "drop_obj s x = Inr s" using nl by (simp add: op_defs)
    with assms(1) show ?thesis by simp
  next
    case (Some c)
    then obtain y where y: "objects s (obj_id x) = Some y"
      using tables_agree_None [OF ag, of "obj_id x"] by auto
    with ids have "obj_id y = obj_id x" and "y \<in> U" by auto
    with assms(2,3) have "y = x" by (auto dest: inj_onD)
    with y have ox: "objects s (obj_id x) = Some x" by simp
    let ?s' = "s\<lparr>printed := printed s @ [LogDropping (obj_id x) (obj_size x) (obj_type x)],
      memory_usage := memory_usage s - obj_size x,
      references := (references s)(obj_id x := None), objects := (objects s)(obj_id x := None),
      memory_pool := pool_append (obj_type x, size_category (obj_size x)) x (memory_pool s)\<rparr>"
    have r: "drop_obj s x = Inr ?s'" using nl Some ox by (rule drop_obj_returns)
    have "live_bytes ?s' = live_bytes s - obj_size x"
      unfolding live_bytes_def using sum_map_del [OF fin ox, of obj_size] by simp
    with mu have 1: "memory_usage ?s' = live_bytes ?s'" by simp
    have 2: "tables_agree ?s'" using ag by (simp add: tables_agree_def)
    have 3: "finite (dom (objects ?s'))" using fin by simp
    have 4: "\<forall>k y. objects ?s' k = Some y \<longrightarrow> obj_id y = k \<and> y \<in> U"
    proof (intro allI impI)
      fix k z assume "objects ?s' k = Some z"
      then have "objects s k = Some z" by (simp split: if_splits)
      with ids show "obj_id z = k \<and> z \<in> U" by blast
    qed
    have 5: "\<not> lock ?s'" using nl by simp
    from 1 2 3 4 5 have "accounted U ?s'" unfolding accounted_def by blast
    with r show ?thesis by blast
  qed
qed

lemma accounted_increase_ref:
  assumes "accounted U s"
  shows "\<exists>s'. resume (increase_ref s x) = Some s' \<and> accounted U s'"
proof -
  from assms have nl: "\<not> lock s" by (simp add: accounted_def)
  from increase_ref_resumes [OF nl, of x] obtain p where
    r: "resume (increase_ref s x) =
     Some (case references s (obj_id x) of
             None \<Rightarrow> s\<lparr>printed := p\<rparr>
           | Some c \<Rightarrow> s\<lparr>references := (references s)(obj_id x \<mapsto> c + 1), printed := p\<rparr>)" ..
  show ?thesis
  proof (cases "references s (obj_id x)")
    case None
    with r accounted_printed [OF assms, of p] show ?thesis by simp
  next
    case (Some c)
    from accounted_printed [OF accounted_count [OF assms Some], of p "c + 1"] r Some
    show ?thesis by simp
  qed
qed

lemma accounted_decrease_ref:
  assumes "accounted U s" and "resume (decrease_ref s x) = Some s'"
  shows "accounted U s'"
proof -
  from assms have nl: "\<not> lock s" by (simp add: accounted_def)
  show ?thesis
  proof (cases "references s (obj_id x) = Some 1")
    case True
    from decrease_ref_blocks [OF nl True] assms(2) show ?thesis by (simp add: resume_def)
  next
    case False
    from decrease_ref_resumes [OF nl False] obtain p where
      r: "resume (decrease_ref s x) =
       Some (case references s (obj_id x) of
               None \<Rightarrow> s\<lparr>printed := p\<rparr>
             | Some c \<Rightarrow> s\<lparr>references := (references s)(obj_id x \<mapsto> c - 1), printed := p\<rparr>)" ..
    show ?thesis
    proof (cases "references s (obj_id x)")
      case None
      with r assms(2) have "s' = s\<lparr>printed := p\<rparr>" by simp
      with accounted_printed [OF assms(1)] show ?thesis by simp
    next
      case (Some c)
      with r assms(2) have "s' = s\<lparr>references := (references s)(obj_id x \<mapsto> c - 1),
          printed := p\<rparr>" by simp
      with accounted_printed [OF accounted_count [OF assms(1) Some]] show ?thesis by simp
    qed
  qed
qed

lemma accounted_reuse:
  assumes "accounted U s" and "reuse s d m = Inr (r, s')"
  shows "accounted U s'"
proof -
  from assms(1) have nl: "\<not> lock s" by (simp add: accounted_def)
  from reuse_outcome [OF nl, of d m] assms(2)
  have "s' = s\<lparr>printed := printed s @ [LogNoSuitable]\<rparr>" by auto
  with accounted_printed [OF assms(1)] show ?thesis by simp
qed

lemma accounted_get_memory_usage:
  assumes "accounted U s" and "get_memory_usage s = Inr (r, s')"
  shows "accounted U s'"
proof -
  from assms(1) have nl: "\<not> lock s" by (simp add: accounted_def)
  from get_memory_usage_returns [OF nl] assms(2)
  have "s' = s\<lparr>printed := printed s @ [LogMemoryUsage (memory_usage s)]\<rparr>" by simp
  with accounted_printed [OF assms(1)] show ?thesis by simp
qed

lemma accounted_exec:
  assumes "accounted U s" and "inj_on obj_id U" and "set (mentioned c) \<subseteq> U"
    and "\<not> allocates_live c s" and "resume (exec c s) = Some s'"
  shows "accounted U s'"
proof (cases c)
  case (Allocate x)
  with assms(3,4) have "x \<in> U" and "references s (obj_id x) = None"
    by (simp_all add: allocates_live_def)
  from accounted_allocate [OF assms(1) this] assms(5) Allocate show ?thesis by auto
next
  case (IncreaseRef x)
  from accounted_increase_ref [OF assms(1), of x] assms(5) IncreaseRef show ?thesis by auto
next
  case (DecreaseRef x)
  with assms(5) have "resume (decrease_ref s x) = Some s'" by simp
  with assms(1) show ?thesis by (rule accounted_decrease_ref)
next
  case (Drop x)
  with assms(3) have "x \<in> U" by simp
  from accounted_drop [OF assms(1) this assms(2)] assms(5) Drop show ?thesis
    by (auto simp add: resume_def)
next
  case (Reuse d m)
  from assms(1) have nl: "\<not> lock s" by (simp add: accounted_def)
  from reuse_outcome [OF nl, of d m] assms(5) Reuse
  have "reuse s d m = Inr (None, s')" by (auto simp add: resume_def)
  with assms(1) show ?thesis by (rule accounted_reuse)
next
  case GetMemoryUsage
  from assms(1) have nl: "\<not> lock s" by (simp add: accounted_def)
  from get_memory_usage_returns [OF nl] assms(5) GetMemoryUsage
  have "get_memory_usage s = Inr (memory_usage s, s')" by (simp add: resume_def)
  with assms(1) show ?thesis by (rule accounted_get_memory_usage)
qed

lemma accounted_run:
  assumes "inj_on obj_id U"
  shows "accounted U s \<Longrightarrow> (\<Union>c\<in>set cs. set (mentioned c)) \<subseteq> U \<Longrightarrow> fresh_allocations cs s
     \<Longrightarrow> run cs s = Inr s' \<Longrightarrow> accounted U s'"
proof (induction cs arbitrary: s)
  case Nil
  then show ?case by simp
next
  case (Cons c cs)
  show ?case
  proof (cases "resume (exec c s)")
    case None
    with Cons.prems(4) have "exec c s = Inr s'" by simp
    with None show ?thesis by (simp add: resume_def)
  next
    case (Some s1)
    with Cons.prems(4) have r: "run cs s1 = Inr s'" by simp
    from Cons.prems(3) Some have nf: "\<not> allocates_live c s" and fr: "fresh_allocations cs s1"
      by simp_all
    from Cons.prems(2) have mc: "set (mentioned c) \<subseteq> U"
      and mr: "(\<Union>c\<in>set cs. set (mentioned c)) \<subseteq> U"
      by simp_all
    from accounted_exec [OF Cons.prems(1) assms mc nf Some] have "accounted U s1" .
    from Cons.IH [OF this mr fr r] show ?thesis .
  qed
qed

lemma accounted_init: "accounted U RefCounter_init"
  by (simp add: accounted_def tables_agree_def live_bytes_def RefCounter_init_def)

text \<open>
  Claim C2, as stated, fails: \<open>memory_usage\<close> is to equal the sum of the sizes of the live
  objects in every reachable state, also after \<open>allocate\<close> is called twice on a live
  object. Two calls of \<open>allocate\<close> on one dict of 64 bytes leave \<open>memory_usage\<close> at 128
  while the live-object table holds that one object, 64 bytes.
\<close>

theorem allocate_twice_counts_twice:
  "case run [Allocate small_dict, Allocate small_dict] RefCounter_init of
     Inl e \<Rightarrow> False
   | Inr s \<Rightarrow> memory_usage s = 128 \<and> live_bytes s = 64 \<and> memory_usage s \<noteq> live_bytes s"
  by (simp add: small_dict_def RefCounter_init_def op_defs resume_def live_bytes_def)

text \<open>
  Claim C2, amended. In every state reached from the initial one by public calls, each of
  which returned or raised, none of them an \<open>allocate\<close> on an identity that was live at that
  moment, \<open>memory_usage\<close> equals the sum of the sizes of the objects in the live-object
  table. Objects with the same identity are the same object, as \<^verbatim>\<open>id\<close> has it.
\<close>

theorem memory_usage_is_live_bytes:
  assumes "run cs RefCounter_init = Inr s"
    and "fresh_allocations cs RefCounter_init"
    and "inj_on obj_id (\<Union>c\<in>set cs. set (mentioned c))"
  shows "memory_usage s = live_bytes s"
proof -
  from accounted_run [OF assms(3) accounted_init _ assms(2) assms(1)]
  have "accounted (\<Union>c\<in>set cs. set (mentioned c)) s" by simp
  then show ?thesis by (simp add: accounted_def)
qed

text \<open>The theorem at the run of seven calls: one dict of 64 bytes is left live.\<close>

theorem memory_usage_is_live_bytes_witness:
  "\<exists>s. run demo_calls RefCounter_init = Inr s
     \<and> fresh_allocations demo_calls RefCounter_init
     \<and> inj_on obj_id (\<Union>c\<in>set demo_calls. set (mentioned c))
     \<and> memory_usage s = live_bytes s \<and> memory_usage s = 64"
proof -
  obtain s where r: "run demo_calls RefCounter_init = Inr s" and m: "memory_usage s = 64"
    by (simp add: demo_calls_def small_dict_def medium_dict_def RefCounter_init_def op_defs
        resume_def size_category_def)
  have f: "fresh_allocations demo_calls RefCounter_init"
    by (simp add: demo_calls_def small_dict_def medium_dict_def RefCounter_init_def op_defs
        resume_def size_category_def allocates_live_def)
  have "(\<Union>c\<in>set demo_calls. set (mentioned c)) = {small_dict, medium_dict}"
    by (auto simp add: demo_calls_def)
  moreover have "inj_on obj_id {small_dict, medium_dict}"
    by (auto simp add: inj_on_def small_dict_def medium_dict_def)
  ultimately have i: "inj_on obj_id (\<Union>c\<in>set demo_calls. set (mentioned c))" by simp
  from memory_usage_is_live_bytes [OF r f i] r f i m show ?thesis by blast
qed

subsection \<open>The lock\<close>

text \<open>
  Claim C3. Every public operation is to return; a \<open>decrease_ref\<close> that reaches zero and a
  \<open>reuse\<close> that finds a candidate take the lock a second time and are to complete. In the
  code the first never returns from its call of \<open>drop\<close>, the second never returns from its
  call of \<open>allocate\<close>.
\<close>

theorem nested_call_waits_for_the_lock:
  "blocks (run [Allocate small_dict, DecreaseRef small_dict] RefCounter_init)
   \<and> blocks (run [Allocate small_dict, Drop small_dict, Reuse (Some ''dict'') 50]
        RefCounter_init)"
  by (simp add: blocks_def small_dict_def RefCounter_init_def op_defs resume_def
      size_category_def)

text \<open>
  Claim C4. A count of zero is never to be observable: the \<open>decrease_ref\<close> that reaches zero
  is to run \<open>drop\<close> in the same step and to return with the entry removed from both live
  tables. In the code that call, made with the lock free on an object whose count is 1,
  writes the count 0, prints it and then waits forever inside \<open>drop\<close>: the entry stays in
  the reference table with count 0.
\<close>

theorem decrease_ref_to_zero_waits_with_count_zero:
  "decrease_ref (s\<lparr>lock := False, references := (references s)(obj_id x \<mapsto> 1)\<rparr>) x =
     Inl (Blocked (s\<lparr>lock := True, references := (references s)(obj_id x \<mapsto> 0),
                     printed := printed s @ [LogDecreased (obj_id x) 0]\<rparr>))"
  by (simp add: op_defs)

text \<open>
  Claim C5. \<open>allocate(x); decrease_ref(x)\<close> is to remove \<open>x\<close> from both live tables, put it
  in its bucket and restore \<open>memory_usage\<close>. In the code, from any state with the lock
  free, the caller goes on after \<open>allocate\<close> (it returned, or raised while formatting \<open>x\<close>
  for its log line, after its three updates) and the following \<open>decrease_ref\<close> never
  returns: it waits with \<open>x\<close> still in both live tables (count 0), the pool unchanged and
  \<open>memory_usage\<close> still increased by the size of \<open>x\<close>.
\<close>

theorem allocate_then_decrease_ref_never_returns:
  "case resume (allocate (s\<lparr>lock := False\<rparr>) x) of
     None \<Rightarrow> False
   | Some s1 \<Rightarrow>
       (case decrease_ref s1 x of
          Inl (Blocked s2) \<Rightarrow>
            references s2 (obj_id x) = Some 0 \<and> objects s2 (obj_id x) = Some x
            \<and> memory_pool s2 = memory_pool s
            \<and> memory_usage s2 = memory_usage s + obj_size x
        | _ \<Rightarrow> False)"
  by (cases "obj_printable x") (simp_all add: op_defs resume_def)

subsection \<open>Calls on objects that are not tracked\<close>




text \<open>
  Claim C7. \<open>drop\<close> on an identity that is not in the live tables is to change nothing and to
  emit a not-allocated report. In the code the call, made with the lock free, returns the
  state it was called in, the printed lines included: nothing is reported.
\<close>

theorem drop_on_absent_identity_is_silent:
  "drop_obj (s\<lparr>lock := False, references := (references s)(obj_id x := None)\<rparr>) x =
     Inr (s\<lparr>lock := False, references := (references s)(obj_id x := None)\<rparr>)"
  by (simp add: op_defs)

subsection \<open>Allocating a live object again\<close>

text \<open>
  Claim C10. \<open>allocate\<close> on an object whose identity is already in the live tables, called
  with the lock free: the count of that identity is 1 whatever it was, both tables keep
  their keys (the identity has its one entry in each), and \<open>memory_usage\<close> has grown by the
  size of the object once more. The call returns when the object can be formatted for the
  log line; otherwise it raises after these updates. The body of \<open>allocate\<close> is the same,
  statement for statement, in \<^verbatim>\<open>memory_manager.py\<close>.
\<close>

theorem allocate_again_resets_count:
  assumes "\<not> lock s" and "references s (obj_id x) = Some c" and "objects s (obj_id x) = Some y"
  shows "\<exists>s'. (if obj_printable x then allocate s x = Inr s'
              else allocate s x = Inl (FormatError s'))
       \<and> references s' = (references s)(obj_id x \<mapsto> 1)
       \<and> objects s' = (objects s)(obj_id x \<mapsto> x)
       \<and> dom (references s') = dom (references s)
       \<and> dom (objects s') = dom (objects s)
       \<and> memory_usage s' = memory_usage s + obj_size x
       \<and> memory_pool s' = memory_pool s"
proof (cases "obj_printable x")
  case True
  then show ?thesis using assms by (auto simp add: op_defs)
next
  case False
  then show ?thesis using assms by (auto simp add: op_defs)
qed

text \<open>The theorem at a dict allocated and referenced once more (count 2): the second
  \<open>allocate\<close> sets the count to 1 and \<open>memory_usage\<close> to 128.\<close>

theorem allocate_again_resets_count_witness:
  "\<exists>s s'. run [Allocate small_dict, IncreaseRef small_dict] RefCounter_init = Inr s
     \<and> \<not> lock s \<and> references s (obj_id small_dict) = Some 2
     \<and> objects s (obj_id small_dict) = Some small_dict
     \<and> allocate s small_dict = Inr s'
     \<and> references s' = (references s)(obj_id small_dict \<mapsto> 1)
     \<and> dom (references s') = dom (references s)
     \<and> dom (objects s') = dom (objects s)
     \<and> memory_usage s = 64 \<and> memory_usage s' = 128"
proof -
  obtain s where r: "run [Allocate small_dict, IncreaseRef small_dict] RefCounter_init = Inr s"
    and l: "\<not> lock s" and c: "references s (obj_id small_dict) = Some 2"
    and o: "objects s (obj_id small_dict) = Some small_dict" and m: "memory_usage s = 64"
    by (simp add: small_dict_def RefCounter_init_def op_defs resume_def)
  have p: "obj_printable small_dict" by (simp add: small_dict_def)
  from allocate_again_resets_count [OF l c o] p obtain s' where
    "allocate s small_dict = Inr s'"
    "references s' = (references s)(obj_id small_dict \<mapsto> 1)"
    "dom (references s') = dom (references s)"
    "dom (objects s') = dom (objects s)"
    "memory_usage s' = memory_usage s + obj_size small_dict"
    by auto
  moreover have "obj_size small_dict = 64" by (simp add: small_dict_def)
  ultimately show ?thesis using r l c o m by auto
qed

subsection \<open>Printed lines\<close>

text \<open>
  Claim C8. Every call of a mutating operation and every rejection by a guard is to emit
  exactly one event before it returns, a \<open>drop\<close> on an absent identity, a \<open>decrease_ref\<close>
  that reaches zero and a successful \<open>reuse\<close> included. In the code \<open>drop\<close> on an absent
  identity returns with nothing printed; the \<open>decrease_ref\<close> that reaches zero prints its
  line and never returns; the \<open>reuse\<close> that finds a candidate never returns and has printed
  nothing.
\<close>

theorem calls_without_their_one_event:
  "(case drop_obj RefCounter_init small_dict of
      Inr s \<Rightarrow> printed s = printed RefCounter_init
    | Inl e \<Rightarrow> False)
   \<and> (case run [Allocate small_dict] RefCounter_init of
         Inr s \<Rightarrow>
           (case decrease_ref s small_dict of
              Inl (Blocked s') \<Rightarrow> printed s' = printed s @ [LogDecreased 1 0]
            | _ \<Rightarrow> False)
       | Inl e \<Rightarrow> False)
   \<and> (case run [Allocate small_dict, Drop small_dict] RefCounter_init of
         Inr s \<Rightarrow>
           (case reuse s (Some ''dict'') 50 of
              Inl (Blocked s') \<Rightarrow> printed s' = printed s
            | _ \<Rightarrow> False)
       | Inl e \<Rightarrow> False)"
  by (simp add: small_dict_def RefCounter_init_def op_defs resume_def size_category_def)

end
